theory Spec2Isabelle
  imports Complex_Main "HOL-Library.Word"
begin

unbundle bit_operations_syntax

section \<open>The binstruct codec (src/server/binstruct.py)\<close>

text \<open>
  The module is Python 2: a \<open>str\<close> is a byte string, \<open>/\<close> on integers is floor
  division, integers are unbounded. A byte is an \<open>8 word\<close>; an \<open>array("B", ...)\<close> and a
  \<open>str\<close> are both byte lists; a stream (\<open>StringIO\<close>) is the list of the bytes not yet
  read, and a function that reads returns the value together with the rest of the stream.
  Every exception of the source is a value of \<open>error\<close>.
\<close>

datatype error =
  FormatError | TypeError | AttributeError | AssertionError | IndexError
  | ZeroDivisionError | OverflowError

type_synonym byte = "8 word"

subsection \<open>Host primitives\<close>

text \<open>\<open>int.bit_length()\<close>: the number of bits of the absolute value.\<close>

fun bit_length_nat :: "nat \<Rightarrow> nat" where
  "bit_length_nat n = (if n = 0 then 0 else Suc (bit_length_nat (n div 2)))"

declare bit_length_nat.simps [simp del]

definition bit_length :: "int \<Rightarrow> nat" where
  "bit_length x = bit_length_nat (nat \<bar>x\<bar>)"

text \<open>\<open>ord(stream.read(1))\<close>: \<open>read\<close> returns the empty string at the end of the stream,
  and \<open>ord\<close> of it raises TypeError.\<close>

definition read_ord :: "byte list \<Rightarrow> error + (int \<times> byte list)" where
  "read_ord stream = (case stream of [] \<Rightarrow> Inl TypeError | c # rest \<Rightarrow> Inr (uint c, rest))"

text \<open>\<open>stream.read(n)\<close> of StringIO: a negative \<open>n\<close> reads to the end, and a read past
  the end returns the bytes that are left.\<close>

definition stream_read :: "byte list \<Rightarrow> int \<Rightarrow> byte list \<times> byte list" where
  "stream_read stream n =
     (if n < 0 then (stream, []) else (take (nat n) stream, drop (nat n) stream))"

subsection \<open>Bit lists\<close>

definition bitsOf :: "int \<Rightarrow> error + nat" where
  "bitsOf n = (if n \<ge> 0 then Inr (bit_length n) else Inl AssertionError)"

fun bitListToInt_loop :: "bool list \<Rightarrow> int \<Rightarrow> int \<Rightarrow> int" where
  "bitListToInt_loop [] i bitM = i"
| "bitListToInt_loop (b # l) i bitM =
     bitListToInt_loop l (i + bitM * of_bool b) (push_bit 1 bitM)"

definition bitListToInt :: "bool list \<Rightarrow> int" where
  "bitListToInt l = bitListToInt_loop (rev l) 0 1"

text \<open>The array has \<open>len(l) / 8\<close> entries and the loop writes entry \<open>i / 8\<close> for every
  \<open>i\<close> in \<open>range(0, len(l), 8)\<close>: when the length is not a multiple of 8 the last
  write is out of range.\<close>

definition bitListToBin :: "bool list \<Rightarrow> error + byte list" where
  "bitListToBin l =
     (if length l mod 8 = 0
      then Inr (map (\<lambda>j. word_of_int (bitListToInt (take 8 (drop (8 * j) l))))
                  [0..<length l div 8])
      else Inl IndexError)"

subsection \<open>Elias gamma\<close>

text \<open>The loop \<open>while bit > 0: binData += [bool(n & bit)]; bit >>= 1\<close>; the generator
  \<open>readBits\<close> runs the same loop on every byte it reads, from \<open>2 ** 7\<close>.\<close>

function maskBits :: "int \<Rightarrow> int \<Rightarrow> bool list \<Rightarrow> bool list" where
  "maskBits n bitv binData =
     (if bitv > 0 then maskBits n (drop_bit 1 bitv) (binData @ [n AND bitv \<noteq> 0])
      else binData)"
  by pat_completeness auto
termination
  by (relation "measure (\<lambda>(n, bitv, binData). nat bitv)") (auto simp: drop_bit_eq_div)

declare maskBits.simps [simp del]

definition eliasGammaEncode :: "int \<Rightarrow> error + byte list" where
  "eliasGammaEncode n =
     (if n > 0 then
        (case bitsOf n of
           Inl e \<Rightarrow> Inl e
         | Inr bitLen \<Rightarrow>
            (let binData = replicate (bitLen - 1) False;
                 binData = maskBits n (2 ^ (bitLen - 1)) binData;
                 binData = binData @ replicate (nat ((- int (length binData)) mod 8)) False
             in bitListToBin binData))
      else Inl AssertionError)"

datatype loop_exit = Break int | Exhausted int nat int

text \<open>The body of \<open>for b in readBits()\<close> on the bits of one byte: \<open>Break\<close> is the
  \<open>break\<close> with the value of \<open>num\<close>, \<open>Exhausted\<close> carries \<open>num\<close>, \<open>state\<close>
  and \<open>bitM\<close> to the next byte.\<close>

fun decodeBits :: "bool list \<Rightarrow> int \<Rightarrow> nat \<Rightarrow> int \<Rightarrow> loop_exit" where
  "decodeBits [] num state bitM = Exhausted num state bitM"
| "decodeBits (b # bs) num state bitM =
     (if state = 0 \<and> \<not> b then decodeBits bs num state (push_bit 1 bitM)
      else (let num' = num + bitM * of_bool b; bitM' = drop_bit 1 bitM
            in if bitM' = 0 then Break num' else decodeBits bs num' 1 bitM'))"

fun decodeBytes :: "byte list \<Rightarrow> int \<Rightarrow> nat \<Rightarrow> int \<Rightarrow> error + (int \<times> byte list)" where
  "decodeBytes [] num state bitM = Inl TypeError"
| "decodeBytes (c # stream) num state bitM =
     (case decodeBits (maskBits (uint c) (2 ^ 7) []) num state bitM of
        Break n \<Rightarrow> Inr (n, stream)
      | Exhausted num' state' bitM' \<Rightarrow> decodeBytes stream num' state' bitM')"

definition eliasGammaDecode :: "byte list \<Rightarrow> error + (int \<times> byte list)" where
  "eliasGammaDecode stream = decodeBytes stream 0 0 1"

subsection \<open>Signed integers\<close>

text \<open>\<open>2 ** (byteLen*8 - 1)\<close> is the float 0.5 when \<open>byteLen\<close> is 0: the comparison
  \<open>n >= 0.5\<close> is written \<open>2 * n \<ge> 1\<close>.\<close>

definition intToBin :: "int \<Rightarrow> error + byte list" where
  "intToBin x =
     (let bitLen = (if x \<ge> 0 then bit_length x else bit_length (x + 1));
          bitLen = bitLen + 1;
          byteLen = (bitLen + 7) div 8;
          x' = (if x < 0 then x + 256 ^ byteLen else x)
      in if x < 0 \<and> \<not> x' > 0 then Inl AssertionError
         else Inr (rev (map (\<lambda>i. word_of_int (drop_bit (i * 8) x' AND 255)) [0..<byteLen])))"

definition binToInt :: "byte list \<Rightarrow> int" where
  "binToInt bin =
     (let byteLen = length bin;
          n = (\<Sum>i\<leftarrow>[0..<byteLen]. push_bit (i * 8) (uint (bin ! (byteLen - i - 1))))
      in if (if byteLen * 8 \<ge> 1 then n \<ge> 2 ^ (byteLen * 8 - 1) else 2 * n \<ge> 1)
         then n - 256 ^ byteLen else n)"

definition intEncode :: "int \<Rightarrow> error + byte list" where
  "intEncode x =
     (case intToBin x of
        Inl e \<Rightarrow> Inl e
      | Inr bin \<Rightarrow>
         if length bin > 0 then
           (case eliasGammaEncode (int (length bin)) of
              Inl e \<Rightarrow> Inl e
            | Inr gammaBin \<Rightarrow> Inr (gammaBin @ bin))
         else Inl AssertionError)"

definition intDecode :: "byte list \<Rightarrow> error + (int \<times> byte list)" where
  "intDecode stream =
     (case eliasGammaDecode stream of
        Inl e \<Rightarrow> Inl e
      | Inr (binLen, stream1) \<Rightarrow>
         (let (bin, stream2) = stream_read stream1 binLen in Inr (binToInt bin, stream2)))"

subsection \<open>Floats\<close>

text \<open>
  A Python float is a NaN, an infinity or a finite double, the finite one given by its
  exact value (the two zeros, which \<open>==\<close> does not tell apart and \<open>floatEncode\<close> encodes
  alike, are one value). \<open>math.frexp\<close> and \<open>float.as_integer_ratio\<close> are exact;
  \<open>float(n)\<close>, \<open>/\<close>, \<open>**\<close> and \<open>*\<close> round to the nearest double, ties to even.
  \<open>Decimal\<close> and \<open>Fraction\<close> arguments are outside the model.
\<close>

datatype pyfloat = FNaN | FPosInf | FNegInf | FFin rat

definition pow2 :: "int \<Rightarrow> rat" where
  "pow2 e = (if e \<ge> 0 then 2 ^ nat e else 1 / 2 ^ nat (- e))"

definition frexp :: "rat \<Rightarrow> rat \<times> int" where
  "frexp x =
     (if x = 0 then (0, 0)
      else (let (a, b) = quotient_of \<bar>x\<bar>;
                e0 = int (bit_length a) - int (bit_length b);
                e = (if pow2 e0 \<le> \<bar>x\<bar> then e0 + 1 else e0)
            in (x / pow2 e, e)))"

definition round_half_even :: "rat \<Rightarrow> int" where
  "round_half_even x =
     (let f = \<lfloor>x\<rfloor>; d = x - of_int f
      in if d < 1 / 2 then f else if 1 / 2 < d then f + 1 else if even f then f else f + 1)"

definition round_double :: "rat \<Rightarrow> pyfloat" where
  "round_double x =
     (if x = 0 then FFin 0
      else (let e = snd (frexp x);
                u = pow2 (max (e - 53) (- 1074));
                r = of_int (round_half_even (x / u)) * u
            in if \<bar>r\<bar> \<ge> 2 ^ 1024 then (if x > 0 then FPosInf else FNegInf) else FFin r))"

text \<open>\<open>float(n)\<close>, also the coercion of an integer operand: OverflowError when the
  integer is too large for a double.\<close>

definition float_of_int :: "int \<Rightarrow> error + rat" where
  "float_of_int n =
     (case round_double (of_int n) of FFin r \<Rightarrow> Inr r | _ \<Rightarrow> Inl OverflowError)"

text \<open>\<open>a / d\<close> for a finite float \<open>a\<close> and an integer \<open>d\<close>.\<close>

definition float_div_int :: "rat \<Rightarrow> int \<Rightarrow> error + pyfloat" where
  "float_div_int a d =
     (case float_of_int d of
        Inl e \<Rightarrow> Inl e
      | Inr b \<Rightarrow> if b = 0 then Inl ZeroDivisionError else Inr (round_double (a / b)))"

text \<open>\<open>2 ** e\<close>: an integer for \<open>e \<ge> 0\<close>, which the product then coerces to a float;
  the float \<open>pow(2.0, float(e))\<close> for \<open>e < 0\<close>.\<close>

definition two_pow :: "int \<Rightarrow> error + rat" where
  "two_pow e =
     (if e \<ge> 0 then float_of_int (2 ^ nat e)
      else (case float_of_int e of
              Inl err \<Rightarrow> Inl err
            | Inr _ \<Rightarrow> (case round_double (pow2 e) of FFin r \<Rightarrow> Inr r | _ \<Rightarrow> Inl OverflowError)))"

definition float_mul :: "pyfloat \<Rightarrow> rat \<Rightarrow> pyfloat" where
  "float_mul a b =
     (case a of
        FFin x \<Rightarrow> round_double (x * b)
      | FNaN \<Rightarrow> FNaN
      | FPosInf \<Rightarrow> (if b = 0 then FNaN else if b > 0 then FPosInf else FNegInf)
      | FNegInf \<Rightarrow> (if b = 0 then FNaN else if b > 0 then FNegInf else FPosInf))"

definition copysign1 :: "pyfloat \<Rightarrow> pyfloat" where
  "copysign1 x = (case x of FNegInf \<Rightarrow> FFin (- 1) | FFin r \<Rightarrow> (if r < 0 then FFin (- 1) else FFin 1)
                  | _ \<Rightarrow> FFin 1)"

text \<open>\<open>intEncode\<close> called on a float, as \<open>floatEncode\<close> does with the result of
  \<open>math.copysign\<close>: the first statement of \<open>intToBin\<close> calls \<open>bit_length\<close> on its
  argument in either branch, and a float has no such attribute.\<close>

definition intToBin_float :: "pyfloat \<Rightarrow> error + byte list" where
  "intToBin_float x = Inl AttributeError"

definition intEncode_float :: "pyfloat \<Rightarrow> error + byte list" where
  "intEncode_float x =
     (case intToBin_float x of
        Inl e \<Rightarrow> Inl e
      | Inr bin \<Rightarrow>
         if length bin > 0 then
           (case eliasGammaEncode (int (length bin)) of
              Inl e \<Rightarrow> Inl e
            | Inr gammaBin \<Rightarrow> Inr (gammaBin @ bin))
         else Inl AssertionError)"

definition floatEncode :: "pyfloat \<Rightarrow> error + byte list" where
  "floatEncode x =
     (if x = FNaN then
        (case intEncode 0 of Inl e \<Rightarrow> Inl e | Inr z \<Rightarrow> Inr (z @ z @ z))
      else if x = FPosInf \<or> x = FNegInf then
        (case intEncode_float (copysign1 x) of
           Inl e \<Rightarrow> Inl e
         | Inr s \<Rightarrow> (case intEncode 0 of Inl e \<Rightarrow> Inl e | Inr z \<Rightarrow> Inr (s @ z @ z)))
      else
        (case x of
           FFin r \<Rightarrow>
             (let (m, e) = frexp r; (num, denom) = quotient_of m
              in case intEncode num of
                   Inl err \<Rightarrow> Inl err
                 | Inr bn \<Rightarrow>
                    (case intEncode denom of
                       Inl err \<Rightarrow> Inl err
                     | Inr bd \<Rightarrow>
                        (case intEncode e of
                           Inl err \<Rightarrow> Inl err
                         | Inr be \<Rightarrow> Inr (bn @ bd @ be))))
         | _ \<Rightarrow> Inl TypeError))"

definition floatDecode :: "byte list \<Rightarrow> error + (pyfloat \<times> byte list)" where
  "floatDecode stream =
     (case intDecode stream of
        Inl err \<Rightarrow> Inl err
      | Inr (num, s1) \<Rightarrow>
         (case intDecode s1 of
            Inl err \<Rightarrow> Inl err
          | Inr (denom, s2) \<Rightarrow>
             (case intDecode s2 of
                Inl err \<Rightarrow> Inl err
              | Inr (e, s3) \<Rightarrow>
                 (case float_of_int num of
                    Inl err \<Rightarrow> Inl err
                  | Inr a \<Rightarrow>
                     (case float_div_int a denom of
                        Inl err \<Rightarrow> Inl err
                      | Inr q \<Rightarrow>
                         (case two_pow e of
                            Inl err \<Rightarrow> Inl err
                          | Inr p \<Rightarrow> Inr (float_mul q p, s3)))))))"

subsection \<open>Booleans and strings\<close>

text \<open>\<open>boolEncode\<close> returns a \<open>str\<close>, the other encoders an \<open>array\<close>. The \<open>+\<close> of
  an array accepts an array only.\<close>

datatype pyseq = PStr "byte list" | PArray "byte list"

definition array_add :: "byte list \<Rightarrow> pyseq \<Rightarrow> error + byte list" where
  "array_add a s = (case s of PArray b \<Rightarrow> Inr (a @ b) | PStr _ \<Rightarrow> Inl TypeError)"

definition boolEncode :: "bool \<Rightarrow> pyseq" where
  "boolEncode b = PStr (if b then [1] else [0])"

definition boolDecode :: "byte list \<Rightarrow> error + (bool \<times> byte list)" where
  "boolDecode stream =
     (case read_ord stream of Inl e \<Rightarrow> Inl e | Inr (c, rest) \<Rightarrow> Inr (c \<noteq> 0, rest))"

definition strEncode :: "byte list \<Rightarrow> error + byte list" where
  "strEncode s =
     (case intEncode (int (length s)) of Inl e \<Rightarrow> Inl e | Inr n \<Rightarrow> Inr (n @ s))"

definition strDecode :: "byte list \<Rightarrow> error + (byte list \<times> byte list)" where
  "strDecode stream =
     (case intDecode stream of
        Inl e \<Rightarrow> Inl e
      | Inr (strLen, s1) \<Rightarrow> Inr (stream_read s1 strLen))"

subsection \<open>Values, lists and dicts\<close>

text \<open>The values \<open>varEncode\<close> dispatches on. A \<open>str\<close> is its bytes; \<open>unicode\<close> and
  \<open>array\<close> arguments, which \<open>strEncode\<close> turns into the same bytes, are not separate
  values here. A dict is the list of its items.\<close>

datatype pyval =
  VNone | VBool bool | VInt int | VFloat pyfloat | VStr "byte list"
  | VList "pyval list" | VDict "(pyval \<times> pyval) list"

text \<open>The four bodies are \<open>pass\<close>: each returns Python's \<open>None\<close> and reads nothing.\<close>

definition listEncode :: "pyval list \<Rightarrow> byte list option" where
  "listEncode l = None"

definition listDecode :: "byte list \<Rightarrow> pyval \<times> byte list" where
  "listDecode stream = (VNone, stream)"

definition dictEncode :: "(pyval \<times> pyval) list \<Rightarrow> byte list option" where
  "dictEncode d = None"

definition dictDecode :: "byte list \<Rightarrow> pyval \<times> byte list" where
  "dictDecode d = (VNone, d)"

subsection \<open>Variants\<close>

definition prefixWithSize :: "byte list \<Rightarrow> error + byte list" where
  "prefixWithSize data =
     (case intEncode (int (length data)) of Inl e \<Rightarrow> Inl e | Inr n \<Rightarrow> Inr (n @ data))"

text \<open>\<open>len(data)\<close> of \<open>None\<close> raises TypeError.\<close>

definition sized_compound :: "byte \<Rightarrow> byte list option \<Rightarrow> error + byte list" where
  "sized_compound typeId data =
     (case data of
        None \<Rightarrow> Inl TypeError
      | Some d \<Rightarrow>
         (case intEncode (int (length d) + 1) of
            Inl e \<Rightarrow> Inl e
          | Inr lenEncoded \<Rightarrow> Inr (lenEncoded @ [typeId] @ d)))"

fun varEncode :: "pyval \<Rightarrow> error + byte list" where
  "varEncode VNone = intEncode 0"
| "varEncode (VBool b) =
     (case array_add [3] (boolEncode b) of Inl e \<Rightarrow> Inl e | Inr d \<Rightarrow> prefixWithSize d)"
| "varEncode (VInt i) =
     (case intEncode i of
        Inl e \<Rightarrow> Inl e
      | Inr body \<Rightarrow>
         (case array_add [4] (PArray body) of Inl e \<Rightarrow> Inl e | Inr d \<Rightarrow> prefixWithSize d))"
| "varEncode (VFloat x) =
     (case floatEncode x of
        Inl e \<Rightarrow> Inl e
      | Inr body \<Rightarrow>
         (case array_add [5] (PArray body) of Inl e \<Rightarrow> Inl e | Inr d \<Rightarrow> prefixWithSize d))"
| "varEncode (VStr s) =
     (case strEncode s of
        Inl e \<Rightarrow> Inl e
      | Inr body \<Rightarrow>
         (case array_add [6] (PArray body) of Inl e \<Rightarrow> Inl e | Inr d \<Rightarrow> prefixWithSize d))"
| "varEncode (VList l) = sized_compound 1 (listEncode l)"
| "varEncode (VDict d) = sized_compound 2 (dictEncode d)"

definition varDecode :: "byte list \<Rightarrow> error + (pyval \<times> byte list)" where
  "varDecode stream =
     (case intDecode stream of
        Inl e \<Rightarrow> Inl e
      | Inr (varLen, s1) \<Rightarrow>
         if varLen < 0 then Inl FormatError
         else if varLen = 0 then Inr (VNone, s1)
         else
           (case read_ord s1 of
              Inl e \<Rightarrow> Inl e
            | Inr (type, s2) \<Rightarrow>
               if type = 1 then Inr (listDecode s2)
               else if type = 2 then Inr (dictDecode s2)
               else if type = 3 then
                 (case boolDecode s2 of Inl e \<Rightarrow> Inl e | Inr (b, s3) \<Rightarrow> Inr (VBool b, s3))
               else if type = 4 then
                 (case intDecode s2 of Inl e \<Rightarrow> Inl e | Inr (i, s3) \<Rightarrow> Inr (VInt i, s3))
               else if type = 5 then
                 (case floatDecode s2 of Inl e \<Rightarrow> Inl e | Inr (x, s3) \<Rightarrow> Inr (VFloat x, s3))
               else if type = 6 then
                 (case strDecode s2 of Inl e \<Rightarrow> Inl e | Inr (s, s3) \<Rightarrow> Inr (VStr s, s3))
               else Inl FormatError))"

subsection \<open>The bits of a byte string\<close>

text \<open>The bits that \<open>readBits\<close> yields from a byte string, most significant first:
  used to state what the decoder sees, not part of the module.\<close>

definition bitsOfBytes :: "byte list \<Rightarrow> bool list" where
  "bitsOfBytes bs = concat (map (\<lambda>c. map (bit c) (rev [0..<8])) bs)"

subsection \<open>The width of a signed integer\<close>

text \<open>The quantities \<open>intToBin\<close> computes on its way: the bit length it takes (of
  \<open>x\<close>, or of \<open>x + 1\<close> for a negative \<open>x\<close>), the number of bytes, and the
  non-negative integer whose bytes are written.\<close>

definition sign_bit_length :: "int \<Rightarrow> nat" where
  "sign_bit_length x = (if x \<ge> 0 then bit_length x else bit_length (x + 1))"

definition byte_length :: "int \<Rightarrow> nat" where
  "byte_length x = (sign_bit_length x + 1 + 7) div 8"

definition unsigned_of :: "int \<Rightarrow> int" where
  "unsigned_of x = (if x < 0 then x + 256 ^ byte_length x else x)"

subsection \<open>Type-IDs\<close>

text \<open>The table of type-IDs in the comment above \<open>prefixWithSize\<close> (\<open>None\<close> has
  none), and the encoder \<open>varEncode\<close> calls for the body of each scalar variant.\<close>

definition typeId :: "pyval \<Rightarrow> byte option" where
  "typeId v = (case v of VNone \<Rightarrow> None | VList _ \<Rightarrow> Some 1 | VDict _ \<Rightarrow> Some 2
               | VBool _ \<Rightarrow> Some 3 | VInt _ \<Rightarrow> Some 4 | VFloat _ \<Rightarrow> Some 5 | VStr _ \<Rightarrow> Some 6)"

definition payload :: "pyval \<Rightarrow> error + byte list" where
  "payload v = (case v of VInt i \<Rightarrow> intEncode i | VFloat x \<Rightarrow> floatEncode x
                | VStr s \<Rightarrow> strEncode s | _ \<Rightarrow> Inl TypeError)"

section \<open>Properties\<close>

subsection \<open>Bit lengths and masks\<close>

lemma maskBits_pow2:
  "maskBits n (2 ^ k) acc = acc @ map (\<lambda>j. bit n j) (rev [0..<Suc k])"
proof (induction k arbitrary: acc)
  case 0
  have "maskBits n 1 acc = maskBits n 0 (acc @ [n AND 1 \<noteq> 0])"
    by (subst maskBits.simps) simp
  also have "\<dots> = acc @ [n AND 1 \<noteq> 0]"
    by (subst maskBits.simps) simp
  finally show ?case by (simp add: and_one_eq mod_2_eq_odd bit_0)
next
  case (Suc k)
  have "maskBits n (2 ^ Suc k) acc = maskBits n (2 ^ k) (acc @ [n AND 2 ^ Suc k \<noteq> 0])"
    by (subst maskBits.simps) (simp add: drop_bit_eq_div)
  moreover have "(n AND 2 ^ Suc k \<noteq> 0) = bit n (Suc k)"
    by (simp only: and_exp_eq_0_iff_not_bit not_not)
  ultimately show ?case
    using Suc.IH [of "acc @ [bit n (Suc k)]"]
    by (simp del: power_Suc)
qed

lemma bit_length_nat_pos: "0 < n \<Longrightarrow> 0 < bit_length_nat n"
  by (subst bit_length_nat.simps) simp

lemma bit_length_nat_bounds:
  "0 < n \<Longrightarrow> 2 ^ (bit_length_nat n - 1) \<le> n \<and> n < 2 ^ bit_length_nat n"
proof (induction n rule: bit_length_nat.induct)
  case (1 n)
  show ?case
  proof (cases "n div 2 = 0")
    case True
    with 1(2) have "n = 1" by presburger
    then show ?thesis by (simp add: bit_length_nat.simps)
  next
    case False
    then have ih: "2 ^ (bit_length_nat (n div 2) - 1) \<le> n div 2
        \<and> n div 2 < 2 ^ bit_length_nat (n div 2)"
      using 1 by simp
    have eq: "bit_length_nat n = Suc (bit_length_nat (n div 2))"
      using 1(2) by (subst bit_length_nat.simps) simp
    from False obtain m where m: "bit_length_nat (n div 2) = Suc m"
      using bit_length_nat_pos [of "n div 2"] by (cases "bit_length_nat (n div 2)") auto
    from ih m have "2 * 2 ^ m \<le> 2 * (n div 2)" "n div 2 < 2 ^ Suc m" by simp_all
    then have "2 ^ Suc m \<le> n" "n < 2 ^ Suc (Suc m)" by (simp_all; presburger)+
    then show ?thesis by (simp add: eq m)
  qed
qed

subsection \<open>The gamma decoder on bits\<close>

lemma decodeBits_append:
  "decodeBits (xs @ ys) num st bitM =
     (case decodeBits xs num st bitM of
        Break n \<Rightarrow> Break n
      | Exhausted a s c \<Rightarrow> decodeBits ys a s c)"
  by (induction xs arbitrary: num st bitM) (auto simp: Let_def)

lemma decodeBits_zeros:
  "decodeBits (replicate k False @ xs) num 0 bitM = decodeBits xs num 0 (bitM * 2 ^ k)"
  by (induction k arbitrary: bitM) (simp_all add: push_bit_eq_mult mult.assoc)

lemma decodeBits_value:
  "st = 1 \<or> bit n k \<Longrightarrow>
   decodeBits (map (bit n) (rev [0..<Suc k])) num st (2 ^ k) = Break (num + take_bit (Suc k) n)"
proof (induction k arbitrary: num st)
  case 0
  then show ?case
    by (auto simp: Let_def drop_bit_eq_div take_bit_Suc bit_0 mod_2_eq_odd)
next
  case (Suc k)
  have step: "decodeBits (map (bit n) (rev [0..<Suc (Suc k)])) num st (2 ^ Suc k)
      = decodeBits (map (bit n) (rev [0..<Suc k])) (num + 2 ^ Suc k * of_bool (bit n (Suc k))) 1 (2 ^ k)"
    using Suc.prems by (auto simp: Let_def drop_bit_eq_div)
  have "take_bit (Suc (Suc k)) n = 2 ^ Suc k * of_bool (bit n (Suc k)) + take_bit (Suc k) n"
    by (simp only: take_bit_Suc_from_most [of "Suc k" n] mult.commute)
  then show ?case
    unfolding step using Suc.IH [of 1] by simp
qed

lemma decodeBits_prefix:
  "st = 1 \<or> (xs \<noteq> [] \<longrightarrow> hd xs) \<Longrightarrow> length xs \<le> k \<Longrightarrow>
   \<exists>a s c. decodeBits xs num st (2 ^ k) = Exhausted a s c"
proof (induction xs arbitrary: num st k)
  case Nil
  then show ?case by simp
next
  case (Cons x xs)
  then obtain k' where k: "k = Suc k'" by (cases k) auto
  have "decodeBits (x # xs) num st (2 ^ k) = decodeBits xs (num + 2 ^ k * of_bool x) 1 (2 ^ k')"
    using Cons.prems k by (auto simp: Let_def drop_bit_eq_div)
  moreover have "\<exists>a s c. decodeBits xs (num + 2 ^ k * of_bool x) 1 (2 ^ k') = Exhausted a s c"
    using Cons.IH [of 1 k'] Cons.prems k by simp
  ultimately show ?case by simp
qed

subsection \<open>Bit lists and bytes\<close>

lemma bitListToInt_loop_acc:
  "bitListToInt_loop l i bitM = i + bitM * bitListToInt_loop l 0 1"
proof (induction l arbitrary: i bitM)
  case Nil
  show ?case by simp
next
  case (Cons b l)
  have "bitListToInt_loop (b # l) i bitM = bitListToInt_loop l (i + bitM * of_bool b) (2 * bitM)"
    by (simp add: push_bit_eq_mult mult.commute)
  also have "\<dots> = (i + bitM * of_bool b) + (2 * bitM) * bitListToInt_loop l 0 1"
    by (rule Cons.IH)
  finally have lhs: "bitListToInt_loop (b # l) i bitM
      = (i + bitM * of_bool b) + (2 * bitM) * bitListToInt_loop l 0 1" .
  have "bitListToInt_loop (b # l) 0 1 = bitListToInt_loop l (of_bool b) 2"
    by (simp add: push_bit_eq_mult)
  also have "\<dots> = of_bool b + 2 * bitListToInt_loop l 0 1"
    by (rule Cons.IH)
  finally have rhs: "bitListToInt_loop (b # l) 0 1 = of_bool b + 2 * bitListToInt_loop l 0 1" .
  show ?case
    unfolding lhs rhs by (simp add: algebra_simps)
qed

lemma bitListToInt_Nil: "bitListToInt [] = 0"
  by (simp add: bitListToInt_def)

lemma bitListToInt_snoc: "bitListToInt (l @ [b]) = of_bool b + 2 * bitListToInt l"
  by (simp add: bitListToInt_def push_bit_eq_mult bitListToInt_loop_acc [of _ "of_bool b" 2])

lemma bit_bitListToInt:
  "bit (bitListToInt l) j = (j < length l \<and> l ! (length l - 1 - j))"
proof (induction l arbitrary: j rule: rev_induct)
  case Nil
  show ?case by (simp add: bitListToInt_Nil)
next
  case (snoc b l)
  show ?case
  proof (cases j)
    case 0
    then show ?thesis by (simp add: bitListToInt_snoc bit_0)
  next
    case (Suc j')
    have "bit (of_bool b + 2 * bitListToInt l) (Suc j') = bit (bitListToInt l) j'"
      by (cases b) (simp_all add: bit_Suc)
    then show ?thesis
      using snoc.IH [of j'] Suc by (auto simp: bitListToInt_snoc nth_append)
  qed
qed

lemma readBits_byte:
  "maskBits (uint (c::byte)) (2 ^ 7) [] = map (bit c) (rev [0..<8])"
  using maskBits_pow2 [of "uint c" 7 "[]"] by (simp add: bit_uint_iff del: upt_Suc)

lemma readBits_of_chunk:
  assumes "length l = 8"
  shows "map (bit (word_of_int (bitListToInt l) :: byte)) (rev [0..<8]) = l"
proof (rule nth_equalityI)
  show "length (map (bit (word_of_int (bitListToInt l) :: byte)) (rev [0..<8])) = length l"
    using assms by simp
next
  fix i assume "i < length (map (bit (word_of_int (bitListToInt l) :: byte)) (rev [0..<8]))"
  then have i: "i < 8" by simp
  then have "rev [0..<8] ! i = 7 - i" by (simp add: rev_nth del: upt_Suc)
  then have "map (bit (word_of_int (bitListToInt l) :: byte)) (rev [0..<8]) ! i
      = bit (word_of_int (bitListToInt l) :: byte) (7 - i)"
    using i by (simp del: upt_Suc)
  also have "\<dots> = (l ! i)"
  proof -
    have "7 - i < 8" "8 - 1 - (7 - i) = i" using i by arith+
    then show ?thesis
      using assms by (simp add: bit_word_of_int_iff bit_bitListToInt)
  qed
  finally show "map (bit (word_of_int (bitListToInt l) :: byte)) (rev [0..<8]) ! i = l ! i" .
qed

lemma concat_chunks:
  "length l = 8 * m \<Longrightarrow> concat (map (\<lambda>j. take 8 (drop (8 * j) l)) [0..<m]) = l"
proof (induction m arbitrary: l)
  case 0
  then show ?case by simp
next
  case (Suc m)
  have "[0..<Suc m] = 0 # map Suc [0..<m]"
    by (simp add: upt_conv_Cons map_Suc_upt del: upt_Suc)
  then have "concat (map (\<lambda>j. take 8 (drop (8 * j) l)) [0..<Suc m])
      = take 8 l @ concat (map (\<lambda>j. take 8 (drop (8 * j) (drop 8 l))) [0..<m])"
    by (simp add: comp_def add.commute del: upt_Suc)
  also have "\<dots> = take 8 l @ drop 8 l"
    using Suc.IH [of "drop 8 l"] Suc.prems by simp
  finally show ?case by simp
qed

subsection \<open>The gamma decoder on bytes\<close>

lemma bitsOfBytes_simps:
  "bitsOfBytes [] = []"
  "bitsOfBytes (c # bs) = map (bit c) (rev [0..<8]) @ bitsOfBytes bs"
  by (simp_all add: bitsOfBytes_def del: upt_Suc)

lemma length_bitsOfBytes: "length (bitsOfBytes bs) = 8 * length bs"
  by (induction bs) (simp_all add: bitsOfBytes_simps del: upt_Suc)

lemma bitListToBin_bits:
  assumes "length l = 8 * m"
  shows "\<exists>bs. bitListToBin l = Inr bs \<and> length bs = m \<and> bitsOfBytes bs = l"
proof -
  let ?bs = "map (\<lambda>j. word_of_int (bitListToInt (take 8 (drop (8 * j) l))) :: byte) [0..<m]"
  have "bitListToBin l = Inr ?bs"
    using assms by (simp add: bitListToBin_def)
  moreover have "length ?bs = m" by simp
  moreover have "bitsOfBytes ?bs = l"
  proof -
    have "\<And>j. j < m \<Longrightarrow> length (take 8 (drop (8 * j) l)) = 8"
      using assms by simp
    then have "map (\<lambda>j. map (bit (word_of_int (bitListToInt (take 8 (drop (8 * j) l))) :: byte))
                 (rev [0..<8])) [0..<m]
        = map (\<lambda>j. take 8 (drop (8 * j) l)) [0..<m]"
      by (intro map_cong refl readBits_of_chunk) simp
    moreover have "bitsOfBytes ?bs
        = concat (map (\<lambda>j. map (bit (word_of_int (bitListToInt (take 8 (drop (8 * j) l))) :: byte))
                 (rev [0..<8])) [0..<m])"
      unfolding bitsOfBytes_def map_map comp_def ..
    ultimately show ?thesis
      using concat_chunks [OF assms] by (simp only:)
  qed
  ultimately show ?thesis by blast
qed

lemma decodeBytes_Cons:
  "decodeBytes (c # stream) num st bitM =
     (case decodeBits (map (bit c) (rev [0..<8])) num st bitM of
        Break n \<Rightarrow> Inr (n, stream)
      | Exhausted num' st' bitM' \<Rightarrow> decodeBytes stream num' st' bitM')"
  by (simp only: decodeBytes.simps readBits_byte)

lemma decodeBytes_code:
  assumes "decodeBits code num st bitM = Break n"
    and "\<And>j. j < length code \<Longrightarrow> \<exists>a s c. decodeBits (take j code) num st bitM = Exhausted a s c"
    and "bitsOfBytes bs = code @ pad" and "length pad < 8"
  shows "decodeBytes (bs @ rest) num st bitM = Inr (n, rest)"
  using assms
proof (induction bs arbitrary: code num st bitM)
  case Nil
  then show ?case by (simp add: bitsOfBytes_simps)
next
  case (Cons c bs)
  let ?b = "map (bit c) (rev [0..<8])"
  have lenb: "length ?b = 8" by simp
  have eq: "?b @ bitsOfBytes bs = code @ pad"
    using Cons.prems(3) by (simp only: bitsOfBytes_simps)
  have lens: "8 + 8 * length bs = length code + length pad"
    using arg_cong [OF eq, of length] by (simp add: length_bitsOfBytes del: upt_Suc)
  show ?case
  proof (cases "length code \<le> 8")
    case True
    with lens Cons.prems(4) have "bs = []"
      by (cases bs) auto
    with eq have "?b = code @ pad" by (simp add: bitsOfBytes_simps del: upt_Suc)
    then have "decodeBits ?b num st bitM = Break n"
      using Cons.prems(1) by (simp add: decodeBits_append del: upt_Suc)
    then show ?thesis
      using \<open>bs = []\<close> by (simp add: decodeBytes_Cons del: upt_Suc decodeBytes.simps)
  next
    case False
    then have len: "8 < length code" by simp
    have b: "?b = take 8 code"
      using arg_cong [OF eq, of "take 8"] len by (simp del: upt_Suc)
    have rest_eq: "bitsOfBytes bs = drop 8 code @ pad"
      using arg_cong [OF eq, of "drop 8"] len by (simp del: upt_Suc)
    from Cons.prems(2) [of 8] len obtain a s c1
      where ex: "decodeBits (take 8 code) num st bitM = Exhausted a s c1" by blast
    have brk: "decodeBits (drop 8 code) a s c1 = Break n"
      using Cons.prems(1) decodeBits_append [of "take 8 code" "drop 8 code" num st bitM] ex
      by simp
    have pre: "\<exists>a' s' c'. decodeBits (take j (drop 8 code)) a s c1 = Exhausted a' s' c'"
      if "j < length (drop 8 code)" for j
    proof -
      have "take (8 + j) code = take 8 code @ take j (drop 8 code)"
        by (simp add: take_add)
      moreover have "8 + j < length code" using that by simp
      ultimately show ?thesis
        using Cons.prems(2) [of "8 + j"] decodeBits_append [of "take 8 code" "take j (drop 8 code)" num st bitM] ex
        by simp
    qed
    have "decodeBytes (bs @ rest) a s c1 = Inr (n, rest)"
      using Cons.IH [OF brk pre rest_eq Cons.prems(4)] by simp
    then show ?thesis
      using ex b by (simp add: decodeBytes_Cons del: upt_Suc decodeBytes.simps)
  qed
qed

subsection \<open>The gamma code of a positive integer\<close>

lemma align_by_8:
  fixes L :: nat
  defines "p \<equiv> nat ((- int L) mod 8)"
  shows "p < 8" and "L + p = 8 * ((L + 7) div 8)"
proof -
  have "0 \<le> (- int L) mod 8" "(- int L) mod 8 < 8" by simp_all
  then show "p < 8" unfolding p_def by linarith
  have "int (L + p) = int L + (- int L) mod 8" unfolding p_def by simp
  also have "\<dots> = 8 * ((int L + 7) div 8)" by presburger
  also have "\<dots> = int (8 * ((L + 7) div 8))" by (simp add: zdiv_int)
  finally show "L + p = 8 * ((L + 7) div 8)" by (simp only: of_nat_eq_iff)
qed

lemma bit_length_pos_bounds:
  assumes "0 < n"
  obtains k where "bit_length n = Suc k" "2 ^ k \<le> n" "n < 2 ^ Suc k"
proof -
  have N: "0 < nat n" using assms by simp
  from bit_length_nat_pos [OF N] obtain k where k: "bit_length_nat (nat n) = Suc k"
    by (cases "bit_length_nat (nat n)") auto
  from bit_length_nat_bounds [OF N] k have "2 ^ k \<le> nat n" "nat n < 2 ^ Suc k" by simp_all
  then have "int (2 ^ k) \<le> n" "n < int (2 ^ Suc k)" using assms by linarith+
  then have "2 ^ k \<le> n" "n < 2 ^ Suc k" by simp_all
  moreover have "bit_length n = Suc k" using k assms by (simp add: bit_length_def)
  ultimately show ?thesis using that by blast
qed

lemma gamma_code_bits:
  assumes "2 ^ k \<le> n" "n < 2 ^ Suc k"
  defines "code \<equiv> replicate k False @ map (bit (n::int)) (rev [0..<Suc k])"
  shows "decodeBits code 0 0 1 = Break n"
    and "j < length code \<Longrightarrow> \<exists>a s c. decodeBits (take j code) 0 0 1 = Exhausted a s c"
proof -
  have n0: "0 \<le> n" using assms(1) zero_le_power [of "2::int" k] by linarith
  have "(n - 2 ^ k) div 2 ^ k = 0"
    using assms(1,2) by (intro div_pos_pos_trivial) simp_all
  moreover have "(2 ^ k + (n - 2 ^ k)) div 2 ^ k = (n - 2 ^ k) div 2 ^ k + 1"
    by (rule div_add_self1) simp
  ultimately have "n div 2 ^ k = 1" by simp
  then have top: "bit n k" by (simp add: bit_iff_odd)
  have tb: "take_bit (Suc k) n = n"
    using n0 assms(2) by (simp only: take_bit_int_eq_self)
  show "decodeBits code 0 0 1 = Break n"
    unfolding code_def decodeBits_zeros
    using decodeBits_value [of 0 n k 0] top tb by simp
  assume j: "j < length code"
  show "\<exists>a s c. decodeBits (take j code) 0 0 1 = Exhausted a s c"
  proof (cases "j \<le> k")
    case True
    then have "take j code = replicate j False @ []" by (simp add: code_def min_def)
    then show ?thesis by (simp only: decodeBits_zeros) simp
  next
    case False
    let ?xs = "take (j - k) (map (bit n) (rev [0..<Suc k]))"
    have "take j code = replicate k False @ ?xs" using False by (simp add: code_def)
    moreover have "length ?xs \<le> k" using j by (simp add: code_def)
    moreover have "?xs \<noteq> [] \<longrightarrow> hd ?xs" using top False by (simp add: take_Cons')
    ultimately show ?thesis
      using decodeBits_prefix [of 0 ?xs k 0] by (simp add: decodeBits_zeros)
  qed
qed

lemma gamma_roundtrip:
  assumes "0 < n"
  shows "\<exists>bs. eliasGammaEncode n = Inr bs
           \<and> length bs = (2 * bit_length n - 1 + 7) div 8
           \<and> (\<forall>rest. eliasGammaDecode (bs @ rest) = Inr (n, rest))"
proof -
  from bit_length_pos_bounds [OF assms] obtain k
    where k: "bit_length n = Suc k" "2 ^ k \<le> n" "n < 2 ^ Suc k" by blast
  define code where "code = replicate k False @ map (bit n) (rev [0..<Suc k])"
  define pad where "pad = replicate (nat ((- int (length code)) mod 8)) False"
  have len_code: "length code = 2 * k + 1" by (simp add: code_def)
  have e: "- (2 * int k) - 1 = - 1 - 2 * int k" by simp
  have enc: "eliasGammaEncode n = bitListToBin (code @ pad)"
    using assms k(1)
    by (simp add: eliasGammaEncode_def bitsOf_def Let_def maskBits_pow2 code_def pad_def
        del: upt_Suc) (simp only: e)
  have pad8: "length pad < 8"
    unfolding pad_def using align_by_8(1) [of "length code"] by simp
  have "length (code @ pad) = 8 * ((length code + 7) div 8)"
    unfolding pad_def using align_by_8(2) [of "length code"] by simp
  from bitListToBin_bits [OF this] obtain bs
    where bs: "bitListToBin (code @ pad) = Inr bs" "length bs = (length code + 7) div 8"
      "bitsOfBytes bs = code @ pad" by blast
  have dec: "eliasGammaDecode (bs @ rest) = Inr (n, rest)" for rest
    unfolding eliasGammaDecode_def
    using gamma_code_bits [OF k(2,3)] bs(3) pad8
    by (intro decodeBytes_code [where code = code and pad = pad]) (simp_all add: code_def)
  have "length bs = (2 * bit_length n - 1 + 7) div 8"
    using bs(2) len_code k(1) by simp
  then show ?thesis using enc bs(1) dec by simp
qed

lemma ceil_eighths: "\<lceil>(2 * real b - 1) / 8\<rceil> = int ((2 * b - 1 + 7) div 8)" if "0 < b" for b :: nat
proof -
  have "(2 * real b - 1) / 8 = real_of_int (2 * int b - 1) / real_of_int 8" by simp
  then have "\<lceil>(2 * real b - 1) / 8\<rceil> = - ((- (2 * int b - 1)) div 8)"
    by (simp only: ceiling_divide_eq_div)
  also have "\<dots> = (2 * int b - 1 + 7) div 8" by presburger
  also have "\<dots> = int ((2 * b - 1 + 7) div 8)"
    using that by (simp add: zdiv_int of_nat_diff)
  finally show ?thesis .
qed

text \<open>
  C5. For every strictly positive integer \<open>n\<close>, \<open>eliasGammaEncode n\<close> succeeds,
  \<open>eliasGammaDecode\<close> on a stream that starts with the encoding returns \<open>n\<close> and
  leaves exactly what follows the encoding, and the encoding has
  \<open>ceil((2 * bitlen(n) - 1) / 8)\<close> bytes.
\<close>

theorem eliasGamma_roundtrip_length:
  "0 < n \<Longrightarrow>
   \<exists>bs. eliasGammaEncode n = Inr bs
      \<and> (\<forall>rest. eliasGammaDecode (bs @ rest) = Inr (n, rest))
      \<and> int (length bs) = \<lceil>(2 * real (bit_length n) - 1) / 8\<rceil>"
proof -
  assume n: "0 < n"
  from bit_length_pos_bounds [OF n] have "0 < bit_length n" by (metis zero_less_Suc)
  then show ?thesis
    using gamma_roundtrip [OF n] by (auto simp: ceil_eighths)
qed

lemma eliasGammaEncode_1000: "eliasGammaEncode 1000 = Inr [0, 0x7D, 0]"
  by code_simp

theorem eliasGamma_roundtrip_length_witness:
  "eliasGammaEncode 1000 = Inr [0, 0x7D, 0]
   \<and> eliasGammaDecode ([0, 0x7D, 0] @ [0xFF]) = Inr (1000, [0xFF])
   \<and> int (length [0, 0x7D, 0 :: byte]) = \<lceil>(2 * real (bit_length 1000) - 1) / 8\<rceil>"
  using eliasGamma_roundtrip_length [of 1000] eliasGammaEncode_1000 by auto

subsection \<open>Two's complement bytes\<close>

lemma bit_length_upper: "\<bar>y\<bar> < 2 ^ bit_length y"
proof (cases "y = 0")
  case True
  then show ?thesis by simp
next
  case False
  then have "0 < nat \<bar>y\<bar>" by simp
  from bit_length_nat_bounds [OF this] have "nat \<bar>y\<bar> < 2 ^ bit_length y"
    by (simp add: bit_length_def)
  then have "int (nat \<bar>y\<bar>) < int (2 ^ bit_length y)" by (simp only: of_nat_less_iff)
  then show ?thesis by simp
qed

lemma sum_bytes:
  "(\<Sum>i\<leftarrow>[0..<L]. push_bit (i * 8) (take_bit 8 (drop_bit (i * 8) (y::int)))) = take_bit (L * 8) y"
proof (induction L)
  case 0
  show ?case by simp
next
  case (Suc L)
  have "take_bit (Suc L * 8) y = y mod (2 ^ (L * 8) * 2 ^ 8)"
    by (simp add: take_bit_eq_mod power_add mult.commute)
  also have "\<dots> = 2 ^ (L * 8) * (y div 2 ^ (L * 8) mod 2 ^ 8) + y mod 2 ^ (L * 8)"
    by (rule zmod_zmult2_eq) simp
  finally show ?case
    using Suc.IH by (simp add: take_bit_eq_mod drop_bit_eq_div push_bit_eq_mult)
qed

lemma byte_of_int: "uint (word_of_int (drop_bit n y AND 255) :: byte) = take_bit 8 (drop_bit n y)"
proof -
  have "(255::int) = mask 8" by (simp add: mask_eq_exp_minus_1)
  then have "drop_bit n y AND 255 = take_bit 8 (drop_bit n y)"
    by (simp only: take_bit_eq_mask)
  then show ?thesis by (simp add: uint_word_of_int_eq)
qed

lemma be_value:
  fixes y :: int and L :: nat
  defines "bin \<equiv> rev (map (\<lambda>i. word_of_int (drop_bit (i * 8) y AND 255) :: byte) [0..<L])"
  shows "(\<Sum>i\<leftarrow>[0..<length bin]. push_bit (i * 8) (uint (bin ! (length bin - i - 1))))
          = take_bit (L * 8) y"
proof -
  have len: "length bin = L" by (simp add: bin_def)
  have "bin ! (L - i - 1) = word_of_int (drop_bit (i * 8) y AND 255)" if "i < L" for i
  proof -
    have "L - i - 1 < L" using that by simp
    moreover have "L - Suc (L - i - 1) = i" using that by simp
    ultimately show ?thesis using that by (simp add: bin_def rev_nth)
  qed
  then have "map (\<lambda>i. push_bit (i * 8) (uint (bin ! (L - i - 1)))) [0..<L]
      = map (\<lambda>i. push_bit (i * 8) (take_bit 8 (drop_bit (i * 8) y))) [0..<L]"
    by (intro map_cong refl) (simp add: byte_of_int)
  then show ?thesis
    unfolding len by (simp only: sum_bytes)
qed

lemma byte_length_range:
  shows byte_length_pos: "0 < byte_length x"
    and byte_length_width: "sign_bit_length x + 1 \<le> byte_length x * 8"
    and byte_length_lower: "- (2 ^ (byte_length x * 8 - 1)) \<le> x"
    and byte_length_upper: "x < 2 ^ (byte_length x * 8 - 1)"
proof -
  let ?b = "sign_bit_length x" and ?L = "byte_length x"
  show "0 < ?L" unfolding byte_length_def by simp
  show w: "?b + 1 \<le> ?L * 8" unfolding byte_length_def by presburger
  then have "?b \<le> ?L * 8 - 1" by simp
  then have p: "(2::int) ^ ?b \<le> 2 ^ (?L * 8 - 1)" by (rule power_increasing) simp
  show "- (2 ^ (?L * 8 - 1)) \<le> x"
  proof (cases "x \<ge> 0")
    case True
    have "(0::int) \<le> 2 ^ (?L * 8 - 1)" by simp
    with True show ?thesis by linarith
  next
    case False
    then have "\<bar>x + 1\<bar> < 2 ^ ?b"
      using bit_length_upper [of "x + 1"] by (simp add: sign_bit_length_def)
    with p False show ?thesis by linarith
  qed
  show "x < 2 ^ (?L * 8 - 1)"
  proof (cases "x \<ge> 0")
    case True
    then have "\<bar>x\<bar> < 2 ^ ?b"
      using bit_length_upper [of x] by (simp add: sign_bit_length_def)
    with p True show ?thesis by linarith
  next
    case False
    have "(0::int) < 2 ^ (?L * 8 - 1)" by simp
    with False show ?thesis by linarith
  qed
qed

lemma pow256: "(256::int) ^ L = 2 ^ (L * 8)"
proof -
  have "(256::int) = 2 ^ 8" by simp
  then show ?thesis by (simp only: power_mult [symmetric] mult.commute)
qed

lemma pow_half: "0 < L \<Longrightarrow> (2::int) ^ (L * 8) = 2 * 2 ^ (L * 8 - 1)"
proof -
  assume "0 < L"
  then have "L * 8 = Suc (L * 8 - 1)" by simp
  then have "(2::int) ^ (L * 8) = 2 ^ Suc (L * 8 - 1)" by (rule arg_cong)
  then show ?thesis by (simp only: power_Suc)
qed

lemma unsigned_of_range:
  "0 \<le> unsigned_of x" "unsigned_of x < 2 ^ (byte_length x * 8)"
  "x < 0 \<Longrightarrow> 2 ^ (byte_length x * 8 - 1) \<le> unsigned_of x"
  "0 \<le> x \<Longrightarrow> unsigned_of x < 2 ^ (byte_length x * 8 - 1)"
  "x < 0 \<Longrightarrow> 0 < unsigned_of x"
  using byte_length_lower [of x] byte_length_upper [of x] pow_half [OF byte_length_pos, of x]
  by (simp_all add: unsigned_of_def pow256)

lemma intToBin_eq:
  "intToBin x = Inr (rev (map (\<lambda>i. word_of_int (drop_bit (i * 8) (unsigned_of x) AND 255))
                       [0..<byte_length x]))"
  using unsigned_of_range(5) [of x]
  by (simp add: intToBin_def Let_def unsigned_of_def byte_length_def sign_bit_length_def)

lemma binToInt_intToBin:
  "binToInt (rev (map (\<lambda>i. word_of_int (drop_bit (i * 8) (unsigned_of x) AND 255))
                       [0..<byte_length x])) = x"
proof -
  let ?bin = "rev (map (\<lambda>i. word_of_int (drop_bit (i * 8) (unsigned_of x) AND 255) :: byte)
                       [0..<byte_length x])"
  let ?L = "byte_length x"
  have len: "length ?bin = ?L" by simp
  have n: "(\<Sum>i\<leftarrow>[0..<length ?bin]. push_bit (i * 8) (uint (?bin ! (length ?bin - i - 1))))
      = unsigned_of x"
    using unsigned_of_range(1,2) [of x]
    by (simp only: be_value take_bit_int_eq_self)
  have L8: "?L * 8 \<ge> 1" using byte_length_pos [of x] by simp
  show ?thesis
  proof (cases "x < 0")
    case True
    then show ?thesis
      unfolding binToInt_def Let_def n
      using unsigned_of_range(3) [of x] L8 by (simp add: unsigned_of_def)
  next
    case False
    then show ?thesis
      unfolding binToInt_def Let_def n
      using unsigned_of_range(4) [of x] L8 by (simp add: unsigned_of_def)
  qed
qed

subsection \<open>Signed integers\<close>

lemma length_intToBin_bytes:
  "length (rev (map (\<lambda>i. word_of_int (drop_bit (i * 8) (unsigned_of x) AND 255) :: byte)
                       [0..<byte_length x])) = byte_length x"
  by simp

lemma intEncode_intDecode:
  "\<exists>g bin. intEncode x = Inr (g @ bin) \<and> eliasGammaEncode (int (byte_length x)) = Inr g
      \<and> intToBin x = Inr bin \<and> length bin = byte_length x
      \<and> (\<forall>rest. intDecode (g @ bin @ rest) = Inr (x, rest))"
proof -
  let ?bin = "rev (map (\<lambda>i. word_of_int (drop_bit (i * 8) (unsigned_of x) AND 255) :: byte)
                       [0..<byte_length x])"
  have len: "length ?bin = byte_length x" by simp
  have pos: "0 < int (byte_length x)" using byte_length_pos [of x] by simp
  from gamma_roundtrip [OF pos] obtain g
    where g: "eliasGammaEncode (int (byte_length x)) = Inr g"
      "\<And>rest. eliasGammaDecode (g @ rest) = Inr (int (byte_length x), rest)" by blast
  have enc: "intEncode x = Inr (g @ ?bin)"
    using g(1) byte_length_pos [of x]
    by (simp only: intEncode_def intToBin_eq len sum.case if_True)
  have dec: "intDecode (g @ ?bin @ rest) = Inr (x, rest)" for rest
    using g(2) [of "?bin @ rest"] binToInt_intToBin [of x]
    by (simp add: intDecode_def stream_read_def del: upt_Suc)
  show ?thesis
    using enc g(1) intToBin_eq [of x] len dec by blast
qed

text \<open>
  C6. For every integer \<open>x\<close>, of either sign and any magnitude, \<open>intEncode x\<close>
  succeeds and \<open>intDecode\<close> on a stream that starts with the encoding returns
  \<open>x\<close> and leaves what follows the encoding.
\<close>

theorem intDecode_intEncode:
  "\<exists>bs. intEncode x = Inr bs \<and> (\<forall>rest. intDecode (bs @ rest) = Inr (x, rest))"
  using intEncode_intDecode [of x] by auto

lemma first_byte_sign:
  "bit (hd (rev (map (\<lambda>i. word_of_int (drop_bit (i * 8) (unsigned_of x) AND 255) :: byte)
                       [0..<byte_length x]))) 7 \<longleftrightarrow> x < 0"
proof -
  let ?L = "byte_length x" and ?u = "unsigned_of x"
  let ?f = "\<lambda>i. word_of_int (drop_bit (i * 8) ?u AND 255) :: byte"
  have L: "0 < ?L" by (rule byte_length_pos)
  then have ne: "[0..<?L] \<noteq> []" by simp
  have "hd (rev (map ?f [0..<?L])) = ?f (?L - 1)"
    using ne L by (simp add: hd_rev last_map del: upt_Suc)
  then have "bit (hd (rev (map ?f [0..<?L]))) 7 = bit (uint (?f (?L - 1))) 7"
    by (simp only: bit_uint_iff) simp
  also have "\<dots> = bit ?u ((?L - 1) * 8 + 7)"
    by (simp only: byte_of_int) (simp add: bit_take_bit_iff bit_drop_bit_eq add.commute)
  also have "(?L - 1) * 8 + 7 = ?L * 8 - 1" using L by (cases ?L) simp_all
  also have "bit ?u (?L * 8 - 1) \<longleftrightarrow> x < 0"
  proof (cases "x < 0")
    case True
    let ?h = "(2::int) ^ (?L * 8 - 1)"
    have a: "?h \<le> ?u" using unsigned_of_range(3) [OF True] .
    have b: "?u < 2 * ?h" using unsigned_of_range(2) [of x] pow_half [OF L] by simp
    have "(?u - ?h) div ?h = 0" using a b by (intro div_pos_pos_trivial) simp_all
    moreover have "(?h + (?u - ?h)) div ?h = (?u - ?h) div ?h + 1"
      by (rule div_add_self1) simp
    ultimately have "?u div ?h = 1" by simp
    then show ?thesis using True by (simp add: bit_iff_odd)
  next
    case False
    then have "?u div 2 ^ (?L * 8 - 1) = 0"
      using unsigned_of_range(1) [of x] unsigned_of_range(4) [of x]
      by (intro div_pos_pos_trivial) simp_all
    then show ?thesis using False by (simp add: bit_iff_odd)
  qed
  finally show ?thesis .
qed

lemma intToBin_0: "intToBin 0 = Inr [0]"
  by code_simp

lemma intToBin_minus_128: "intToBin (- 128) = Inr [0x80]"
  by code_simp

lemma bit_length_minus_128: "bit_length (- 128) = 8"
  by code_simp

text \<open>
  C7, as amended. For every integer \<open>x\<close>, \<open>intToBin x\<close> succeeds with a big-endian
  two's complement byte string (\<open>binToInt\<close>, which weighs the byte at index
  \<open>len - i - 1\<close> with \<open>256 ^ i\<close>, reads \<open>x\<close> back) whose bit width is the least
  multiple of 8 that is at least \<open>bit_length x + 1\<close> for \<open>x \<ge> 0\<close> and at least
  \<open>bit_length (x + 1) + 1\<close> for \<open>x < 0\<close>; the high bit of the first byte is set
  exactly when \<open>x\<close> is negative, and 0 is the single byte 0x00.
\<close>

theorem intToBin_width_and_sign:
  "\<exists>bin. intToBin x = Inr bin
      \<and> (if 0 \<le> x then bit_length x else bit_length (x + 1)) + 1 \<le> 8 * length bin
      \<and> length bin = ((if 0 \<le> x then bit_length x else bit_length (x + 1)) + 8) div 8
      \<and> binToInt bin = x
      \<and> (bit (hd bin) 7 \<longleftrightarrow> x < 0)
      \<and> intToBin 0 = Inr [0]"
proof -
  let ?bin = "rev (map (\<lambda>i. word_of_int (drop_bit (i * 8) (unsigned_of x) AND 255) :: byte)
                       [0..<byte_length x])"
  have "intToBin x = Inr ?bin" by (rule intToBin_eq)
  moreover have "(if 0 \<le> x then bit_length x else bit_length (x + 1)) + 1 \<le> 8 * length ?bin"
    using byte_length_width [of x] by (simp add: sign_bit_length_def)
  moreover have "length ?bin = ((if 0 \<le> x then bit_length x else bit_length (x + 1)) + 8) div 8"
    by (simp add: byte_length_def sign_bit_length_def)
  moreover have "binToInt ?bin = x" by (rule binToInt_intToBin)
  moreover have "bit (hd ?bin) 7 \<longleftrightarrow> x < 0" by (rule first_byte_sign)
  ultimately show ?thesis using intToBin_0 by blast
qed

text \<open>
  The claim as stated, with the bit length of \<open>x\<close> itself for a negative \<open>x\<close>, fails
  at \<open>x = -128\<close>: its bit length is 8 and its encoding is the one byte 0x80, 8 bits wide.
\<close>

theorem intToBin_width_counterexample:
  "intToBin (- 128) = Inr [0x80] \<and> \<not> (bit_length (- 128) + 1 \<le> 8 * length [0x80 :: byte])"
  using intToBin_minus_128 bit_length_minus_128 by simp

subsection \<open>Booleans\<close>

text \<open>
  C10. \<open>boolDecode\<close> reads exactly one byte and returns False if and only if that byte
  is 0x00: every nonzero byte, not only the 0x01 of \<open>boolEncode\<close>, decodes to True
  and no byte raises an error.
\<close>

theorem boolDecode_any_byte: "boolDecode (c # rest) = Inr (c \<noteq> 0, rest)"
  by (simp add: boolDecode_def read_ord_def uint_0_iff)

lemma intEncode_0: "intEncode 0 = Inr [0x80, 0]" by code_simp
lemma intEncode_1: "intEncode 1 = Inr [0x80, 1]" by code_simp
lemma intEncode_minus_1: "intEncode (- 1) = Inr [0x80, 0xFF]" by code_simp

lemma intDecode_of_intEncode:
  assumes "intEncode x = Inr bs"
  shows "intDecode (bs @ rest) = Inr (x, rest)"
proof -
  from intEncode_intDecode [of x] obtain g bin
    where "intEncode x = Inr (g @ bin)" "\<And>rest. intDecode (g @ bin @ rest) = Inr (x, rest)"
    by blast
  with assms show ?thesis by (metis append_assoc sum.inject(2))
qed

lemma intEncode_total: "\<exists>bs. intEncode x = Inr bs"
  using intEncode_intDecode [of x] by blast

lemma intDecode_0: "intDecode (0x80 # 0 # rest) = Inr (0, rest)"
  using intDecode_of_intEncode [OF intEncode_0, of rest] by simp

subsection \<open>The variant envelope\<close>

lemma prefixWithSize_shape:
  assumes "prefixWithSize d = Inr bs"
  shows "\<exists>sz. intEncode (int (length d)) = Inr sz \<and> bs = sz @ d
           \<and> (\<forall>rest. intDecode (bs @ rest) = Inr (int (length d), d @ rest))"
proof -
  from intEncode_total [of "int (length d)"] obtain sz
    where sz: "intEncode (int (length d)) = Inr sz" by blast
  with assms have bs: "bs = sz @ d" by (simp add: prefixWithSize_def)
  have "intDecode (bs @ rest) = Inr (int (length d), d @ rest)" for rest
    using intDecode_of_intEncode [OF sz, of "d @ rest"] bs by simp
  with sz bs show ?thesis by blast
qed

lemma varEncode_tagged:
  assumes "varEncode v = Inr bs" "v \<noteq> VNone"
  shows "\<exists>tag body. typeId v = Some tag \<and> payload v = Inr body
           \<and> prefixWithSize (tag # body) = Inr bs"
proof (cases v)
  case VNone
  with assms(2) show ?thesis by simp
next
  case (VBool b)
  with assms(1) show ?thesis by (simp add: array_add_def boolEncode_def)
next
  case (VInt i)
  with assms(1) show ?thesis
    by (auto simp: typeId_def payload_def array_add_def split: sum.splits)
next
  case (VFloat x)
  with assms(1) show ?thesis
    by (auto simp: typeId_def payload_def array_add_def split: sum.splits)
next
  case (VStr s)
  with assms(1) show ?thesis
    by (auto simp: typeId_def payload_def array_add_def split: sum.splits)
next
  case (VList l)
  with assms(1) show ?thesis by (simp add: sized_compound_def listEncode_def)
next
  case (VDict d)
  with assms(1) show ?thesis by (simp add: sized_compound_def dictEncode_def)
qed

text \<open>
  C8, as amended. For every value other than \<open>None\<close> that \<open>varEncode\<close> encodes,
  the encoding is a size field, one tag byte and the body. The size field is the integer
  encoding (\<open>intEncode\<close>: a gamma-coded byte count, then the two's complement bytes) of
  \<open>1 + len(body)\<close>, not a gamma code of that number; the tag byte is the type-ID of the
  value's variant, one of 1 to 6; the body is the variant's own encoding. A reader that
  decodes the size field with \<open>intDecode\<close> and advances by its value lands exactly
  behind the value.
\<close>

theorem varEncode_envelope:
  "varEncode v = Inr bs \<and> v \<noteq> VNone \<longrightarrow>
   (\<exists>sz tag body.
      bs = sz @ [tag] @ body
      \<and> intEncode (1 + int (length body)) = Inr sz
      \<and> typeId v = Some tag \<and> tag \<in> {1, 2, 3, 4, 5, 6}
      \<and> payload v = Inr body
      \<and> (\<forall>rest. \<exists>s1. intDecode (bs @ rest) = Inr (1 + int (length body), s1)
              \<and> stream_read s1 (1 + int (length body)) = (tag # body, rest)))"
proof
  assume a: "varEncode v = Inr bs \<and> v \<noteq> VNone"
  from varEncode_tagged [of v bs] a obtain tag body
    where t: "typeId v = Some tag" "payload v = Inr body" "prefixWithSize (tag # body) = Inr bs"
    by blast
  from prefixWithSize_shape [OF t(3)] obtain sz
    where sz: "intEncode (int (length (tag # body))) = Inr sz" "bs = sz @ tag # body"
      "\<And>rest. intDecode (bs @ rest) = Inr (int (length (tag # body)), (tag # body) @ rest)"
    by blast
  have len: "int (length (tag # body)) = 1 + int (length body)" by simp
  have tag: "tag \<in> {1, 2, 3, 4, 5, 6}"
    using t(1) by (cases v) (auto simp: typeId_def)
  have "\<exists>s1. intDecode (bs @ rest) = Inr (1 + int (length body), s1)
              \<and> stream_read s1 (1 + int (length body)) = (tag # body, rest)" for rest
    using sz(3) [of rest] unfolding len by (simp add: stream_read_def nat_add_distrib)
  then show "\<exists>sz tag body.
      bs = sz @ [tag] @ body
      \<and> intEncode (1 + int (length body)) = Inr sz
      \<and> typeId v = Some tag \<and> tag \<in> {1, 2, 3, 4, 5, 6}
      \<and> payload v = Inr body
      \<and> (\<forall>rest. \<exists>s1. intDecode (bs @ rest) = Inr (1 + int (length body), s1)
              \<and> stream_read s1 (1 + int (length body)) = (tag # body, rest))"
    using sz(1,2) t(1,2) tag unfolding len by auto
qed

lemma varEncode_int_5: "varEncode (VInt 5) = Inr [0x80, 3, 4, 0x80, 5]" by code_simp
lemma gamma_of_int_5_envelope:
  "eliasGammaDecode [0x80, 3, 4, 0x80, 5] = Inr (1, [3, 4, 0x80, 5])" by code_simp
lemma eliasGammaEncode_3: "eliasGammaEncode 3 = Inr [0x60]" by code_simp

theorem varEncode_envelope_witness:
  "(varEncode (VInt 5) = Inr [0x80, 3, 4, 0x80, 5] \<and> VInt 5 \<noteq> VNone)
   \<and> (\<exists>sz tag body.
        [0x80, 3, 4, 0x80, 5] = sz @ [tag] @ body
        \<and> intEncode (1 + int (length body)) = Inr sz
        \<and> typeId (VInt 5) = Some tag \<and> tag \<in> {1, 2, 3, 4, 5, 6}
        \<and> payload (VInt 5) = Inr body
        \<and> (\<forall>rest. \<exists>s1. intDecode ([0x80, 3, 4, 0x80, 5] @ rest) = Inr (1 + int (length body), s1)
              \<and> stream_read s1 (1 + int (length body)) = (tag # body, rest)))"
proof -
  have h: "varEncode (VInt 5) = Inr [0x80, 3, 4, 0x80, 5] \<and> VInt 5 \<noteq> VNone"
    using varEncode_int_5 by simp
  from varEncode_envelope [of "VInt 5" "[0x80, 3, 4, 0x80, 5]", THEN mp, OF h] h
  show ?thesis by (rule conjI [rotated])
qed

text \<open>
  The claim as stated fails at the integer 5: the envelope is 0x80 0x03 0x04 0x80 0x05,
  whose leading gamma code has the value 1 (the byte count of the size integer), not
  \<open>1 + len(body) = 3\<close>, whose gamma code would be the single byte 0x60.
\<close>

theorem varEncode_size_field_counterexample:
  "varEncode (VInt 5) = Inr [0x80, 3, 4, 0x80, 5]
   \<and> eliasGammaDecode [0x80, 3, 4, 0x80, 5] = Inr (1, [3, 4, 0x80, 5])
   \<and> eliasGammaEncode 3 = Inr [0x60]"
  using varEncode_int_5 gamma_of_int_5_envelope eliasGammaEncode_3 by simp

lemma varDecode_zero_size:
  "intDecode stream = Inr (0, rest) \<Longrightarrow> varDecode stream = Inr (VNone, rest)"
  by (simp add: varDecode_def)

lemma varEncode_None: "varEncode VNone = Inr [0x80, 0]"
  by (simp add: intEncode_0)

text \<open>
  C9. \<open>None\<close> is the only value whose encoding is a zero-valued size field with no
  type tag and no body: every other value that \<open>varEncode\<close> encodes has a positive
  size field and bytes behind it. \<open>varDecode\<close>, on reading a size field equal to 0,
  returns \<open>None\<close> and leaves the stream where the size field ended.
\<close>

theorem nil_zero_size:
  "varEncode VNone = Inr [0x80, 0]
   \<and> (\<forall>rest. intDecode ([0x80, 0] @ rest) = Inr (0, rest))
   \<and> (\<forall>v bs. varEncode v = Inr bs \<and> v \<noteq> VNone \<longrightarrow>
          (\<exists>n s1. intDecode bs = Inr (n, s1) \<and> 0 < n \<and> s1 \<noteq> []))
   \<and> (\<forall>stream rest. intDecode stream = Inr (0, rest) \<longrightarrow>
          varDecode stream = Inr (VNone, rest))"
proof -
  have "\<exists>n s1. intDecode bs = Inr (n, s1) \<and> 0 < n \<and> s1 \<noteq> []"
    if "varEncode v = Inr bs \<and> v \<noteq> VNone" for v bs
  proof -
    from varEncode_tagged [of v bs] that obtain tag body
      where "prefixWithSize (tag # body) = Inr bs" by blast
    from prefixWithSize_shape [OF this]
    have "intDecode (bs @ []) = Inr (int (length (tag # body)), (tag # body) @ [])" by blast
    then show ?thesis by simp
  qed
  then show ?thesis
    using varEncode_None intDecode_0 varDecode_zero_size by auto
qed

lemma varDecode_nil_then_9: "varDecode [0x80, 0, 9] = Inr (VNone, [9])" by code_simp

theorem nil_zero_size_witness:
  "(varEncode (VInt 5) = Inr [0x80, 3, 4, 0x80, 5] \<and> VInt 5 \<noteq> VNone)
   \<and> (\<exists>n s1. intDecode [0x80, 3, 4, 0x80, 5] = Inr (n, s1) \<and> 0 < n \<and> s1 \<noteq> [])
   \<and> intDecode [0x80, 0, 9] = Inr (0, [9])
   \<and> varDecode [0x80, 0, 9] = Inr (VNone, [9])"
proof -
  have h: "varEncode (VInt 5) = Inr [0x80, 3, 4, 0x80, 5] \<and> VInt 5 \<noteq> VNone"
    using varEncode_int_5 by simp
  have a: "\<exists>n s1. intDecode [0x80, 3, 4, 0x80, 5] = Inr (n, s1) \<and> 0 < n \<and> s1 \<noteq> []"
    using nil_zero_size h by blast
  have b: "intDecode [0x80, 0, 9] = Inr (0, [9])"
    using nil_zero_size by (metis append_Cons append_Nil)
  have c: "varDecode [0x80, 0, 9] = Inr (VNone, [9])"
    using nil_zero_size b by blast
  from h a b c show ?thesis by blast
qed

subsection \<open>Malformed input\<close>











subsection \<open>Floats, lists and dicts\<close>

lemma floatEncode_nan: "floatEncode FNaN = Inr [0x80, 0, 0x80, 0, 0x80, 0]"
  by (simp add: floatEncode_def intEncode_0)

lemma floatEncode_inf:
  "floatEncode FPosInf = Inl AttributeError" "floatEncode FNegInf = Inl AttributeError"
  by (simp_all add: floatEncode_def intEncode_float_def intToBin_float_def)

lemma floatDecode_nan_fields:
  "floatDecode [0x80, 0, 0x80, 0, 0x80, 0] = Inl ZeroDivisionError" by code_simp
lemma floatDecode_posinf_fields:
  "floatDecode [0x80, 1, 0x80, 0, 0x80, 0] = Inl ZeroDivisionError" by code_simp
lemma floatDecode_neginf_fields:
  "floatDecode [0x80, 0xFF, 0x80, 0, 0x80, 0] = Inl ZeroDivisionError" by code_simp

text \<open>
  C2, on the code. \<open>floatEncode\<close> maps NaN to three integer-zero fields, but raises
  AttributeError on either infinity (\<open>math.copysign\<close> returns a float, which has no
  \<open>bit_length\<close>); and \<open>floatDecode\<close> raises ZeroDivisionError on each of the three
  reserved encodings (0, 0, 0), (1, 0, 0) and (-1, 0, 0), since it divides by the
  denominator 0.
\<close>

theorem float_reserved_encodings:
  "floatEncode FNaN = Inr [0x80, 0, 0x80, 0, 0x80, 0]
   \<and> floatEncode FPosInf = Inl AttributeError
   \<and> floatEncode FNegInf = Inl AttributeError
   \<and> intEncode 1 = Inr [0x80, 1] \<and> intEncode (- 1) = Inr [0x80, 0xFF]
   \<and> intEncode 0 = Inr [0x80, 0]
   \<and> floatDecode ([0x80, 0] @ [0x80, 0] @ [0x80, 0]) = Inl ZeroDivisionError
   \<and> floatDecode ([0x80, 1] @ [0x80, 0] @ [0x80, 0]) = Inl ZeroDivisionError
   \<and> floatDecode ([0x80, 0xFF] @ [0x80, 0] @ [0x80, 0]) = Inl ZeroDivisionError"
  using floatEncode_nan floatEncode_inf intEncode_0 intEncode_1 intEncode_minus_1
    floatDecode_nan_fields floatDecode_posinf_fields floatDecode_neginf_fields
  by simp

text \<open>
  C4, on the code. The bodies of \<open>listEncode\<close>, \<open>listDecode\<close>, \<open>dictEncode\<close> and
  \<open>dictDecode\<close> are \<open>pass\<close>: the encoders return \<open>None\<close> for every argument (for the
  empty list too, where the count alone would be 0x80 0x00), the decoders return
  \<open>None\<close> and read nothing, and \<open>varEncode\<close> of a list or dict raises TypeError.
\<close>

theorem list_dict_stubs:
  "listEncode l = None \<and> dictEncode d = None
   \<and> listDecode stream = (VNone, stream) \<and> dictDecode stream = (VNone, stream)
   \<and> varEncode (VList l) = Inl TypeError \<and> varEncode (VDict d) = Inl TypeError
   \<and> listEncode [] \<noteq> Some [0x80, 0]"
  by (simp add: listEncode_def dictEncode_def listDecode_def dictDecode_def sized_compound_def)

lemma varDecode_nan: "varDecode [0x80, 7, 5, 0x80, 0, 0x80, 0, 0x80, 0] = Inl ZeroDivisionError"
  by code_simp
lemma varEncode_nan: "varEncode (VFloat FNaN) = Inr [0x80, 7, 5, 0x80, 0, 0x80, 0, 0x80, 0]"
  by code_simp
lemma varDecode_list_tag: "varDecode [0x80, 1, 1] = Inr (VNone, [])"
  by code_simp

text \<open>
  C1, on the code. The round trip fails where \<open>varEncode\<close> raises: TypeError on every
  boolean (an array is added to a \<open>str\<close>), on every list and on every dict,
  AttributeError on the infinities; and the encoding of NaN decodes to ZeroDivisionError.
\<close>

theorem varEncode_roundtrip_failures:
  "varEncode (VBool b) = Inl TypeError
   \<and> varEncode (VList l) = Inl TypeError
   \<and> varEncode (VDict d) = Inl TypeError
   \<and> varEncode (VFloat FPosInf) = Inl AttributeError
   \<and> varEncode (VFloat FNegInf) = Inl AttributeError
   \<and> varEncode (VFloat FNaN) = Inr [0x80, 7, 5, 0x80, 0, 0x80, 0, 0x80, 0]
   \<and> varDecode [0x80, 7, 5, 0x80, 0, 0x80, 0, 0x80, 0] = Inl ZeroDivisionError"
  using varEncode_nan varDecode_nan floatEncode_inf
  by (simp add: array_add_def boolEncode_def listEncode_def dictEncode_def sized_compound_def)

text \<open>The round trip does hold for \<open>None\<close>, integers and byte strings.\<close>

lemma varDecode_varEncode_int:
  "\<exists>bs. varEncode (VInt i) = Inr bs \<and> (\<forall>rest. varDecode (bs @ rest) = Inr (VInt i, rest))"
proof -
  from intEncode_total [of i] obtain body where body: "intEncode i = Inr body" by blast
  from intEncode_total [of "int (length (4 # body))"] obtain sz
    where sz: "intEncode (int (length (4 # body))) = Inr sz" by blast
  have enc: "varEncode (VInt i) = Inr (sz @ 4 # body)"
    using body sz by (simp add: array_add_def prefixWithSize_def)
  have "varDecode ((sz @ 4 # body) @ rest) = Inr (VInt i, rest)" for rest
    using intDecode_of_intEncode [OF sz, of "4 # body @ rest"]
      intDecode_of_intEncode [OF body, of rest]
    by (simp add: varDecode_def read_ord_def)
  with enc show ?thesis by blast
qed

lemma varDecode_varEncode_str:
  "\<exists>bs. varEncode (VStr s) = Inr bs \<and> (\<forall>rest. varDecode (bs @ rest) = Inr (VStr s, rest))"
proof -
  from intEncode_total [of "int (length s)"] obtain n
    where n: "intEncode (int (length s)) = Inr n" by blast
  from intEncode_total [of "int (length (6 # n @ s))"] obtain sz
    where sz: "intEncode (int (length (6 # n @ s))) = Inr sz" by blast
  have enc: "varEncode (VStr s) = Inr (sz @ 6 # n @ s)"
    using n sz by (simp add: array_add_def prefixWithSize_def strEncode_def)
  have "varDecode ((sz @ 6 # n @ s) @ rest) = Inr (VStr s, rest)" for rest
    using intDecode_of_intEncode [OF sz, of "6 # n @ s @ rest"]
      intDecode_of_intEncode [OF n, of "s @ rest"]
    by (simp add: varDecode_def read_ord_def strDecode_def stream_read_def)
  with enc show ?thesis by blast
qed

lemma varDecode_varEncode_None:
  "varEncode VNone = Inr [0x80, 0] \<and> varDecode ([0x80, 0] @ rest) = Inr (VNone, rest)"
  using varEncode_None intDecode_0 [of rest] by (simp add: varDecode_def)

end
